theory Spec2Isabelle
  imports Complex_Main
begin

section \<open>Python values reaching \<open>process_stock\<close>\<close>

text \<open>
  \<open>stock_processor.py\<close> inspects its argument with \<open>isinstance\<close>, so the model works on
  an explicit universe of Python values: \<open>None\<close>, \<open>bool\<close>, \<open>int\<close> (unbounded),
  \<open>float\<close>, \<open>str\<close>, \<open>tuple\<close> and \<open>list\<close>. A \<open>str\<close> is a list of characters, each
  standing for the code point of the same number (code points below 256).

  A \<open>float\<close> is an IEEE 754 binary64 value. The finite ones are kept as the rational
  they denote; \<open>-0.0\<close> and \<open>0.0\<close> are identified (no operation of the module tells
  them apart: it only multiplies, adds, compares and rounds). Every arithmetic result
  is rounded to the nearest double, ties to even, by \<open>to_double\<close>.
\<close>

datatype pyfloat = Finite rat | PInf | NInf | NaN

datatype pyval =
    PNone
  | PBool bool
  | PInt int
  | PFloat pyfloat
  | PStr string
  | PTuple "pyval list"
  | PList "pyval list"

datatype exn = TypeError | ValueError | OverflowError

subsection \<open>Rounding to binary64\<close>

definition pow2 :: "int \<Rightarrow> rat" where
  "pow2 k = (if 0 \<le> k then 2 ^ nat k else 1 / 2 ^ nat (- k))"

definition round_half_even :: "rat \<Rightarrow> int" where
  "round_half_even x =
     (let f = \<lfloor>x\<rfloor>; r = x - of_int f
      in if r < 1 / 2 then f
         else if 1 / 2 < r then f + 1
         else if even f then f else f + 1)"

text \<open>The number of binary digits of a positive integer (\<open>int.bit_length\<close>), 0 otherwise.\<close>

function bit_length :: "int \<Rightarrow> int" where
  "bit_length n = (if n \<le> 0 then 0 else 1 + bit_length (n div 2))"
  by pat_completeness auto
termination
  by (relation "measure nat") auto

declare bit_length.simps [simp del]

text \<open>
  For a positive rational \<open>a\<close>, \<open>ilog2 a\<close> is the exponent \<open>e\<close> with
  \<open>2^e \<le> a < 2^(e+1)\<close>.
\<close>

definition ilog2 :: "rat \<Rightarrow> int" where
  "ilog2 a =
     (if 1 \<le> a then bit_length \<lfloor>a\<rfloor> - 1
      else - bit_length (\<lceil>1 / a\<rceil> - 1))"

text \<open>
  A double has a 53-bit significand and a unit in the last place of at least
  \<open>2^-1074\<close>; a rounded magnitude of \<open>2^1024\<close> or more overflows to infinity.
\<close>

definition to_double :: "rat \<Rightarrow> pyfloat" where
  "to_double q =
     (if q = 0 then Finite 0
      else let a = \<bar>q\<bar>;
               u = max (ilog2 a - 52) (- 1074);
               m = round_half_even (a / pow2 u)
           in if 1024 < u + bit_length m then (if 0 < q then PInf else NInf)
              else Finite ((if 0 < q then 1 else - 1) * of_int m * pow2 u))"

subsection \<open>Float operations used by the module\<close>

fun float_mul :: "pyfloat \<Rightarrow> pyfloat \<Rightarrow> pyfloat" where
  "float_mul NaN _ = NaN"
| "float_mul _ NaN = NaN"
| "float_mul (Finite a) (Finite b) = to_double (a * b)"
| "float_mul (Finite a) PInf = (if a = 0 then NaN else if 0 < a then PInf else NInf)"
| "float_mul (Finite a) NInf = (if a = 0 then NaN else if 0 < a then NInf else PInf)"
| "float_mul PInf (Finite b) = (if b = 0 then NaN else if 0 < b then PInf else NInf)"
| "float_mul NInf (Finite b) = (if b = 0 then NaN else if 0 < b then NInf else PInf)"
| "float_mul PInf PInf = PInf"
| "float_mul PInf NInf = NInf"
| "float_mul NInf PInf = NInf"
| "float_mul NInf NInf = PInf"

fun float_add :: "pyfloat \<Rightarrow> pyfloat \<Rightarrow> pyfloat" where
  "float_add NaN _ = NaN"
| "float_add _ NaN = NaN"
| "float_add (Finite a) (Finite b) = to_double (a + b)"
| "float_add (Finite a) PInf = PInf"
| "float_add (Finite a) NInf = NInf"
| "float_add PInf (Finite b) = PInf"
| "float_add NInf (Finite b) = NInf"
| "float_add PInf PInf = PInf"
| "float_add PInf NInf = NaN"
| "float_add NInf PInf = NaN"
| "float_add NInf NInf = NInf"

text \<open>\<open>x < y\<close> and \<open>x >= y\<close> on floats: every comparison with NaN is false.\<close>

fun float_less :: "pyfloat \<Rightarrow> pyfloat \<Rightarrow> bool" where
  "float_less NaN _ = False"
| "float_less _ NaN = False"
| "float_less (Finite a) (Finite b) = (a < b)"
| "float_less (Finite a) PInf = True"
| "float_less (Finite a) NInf = False"
| "float_less PInf _ = False"
| "float_less NInf NInf = False"
| "float_less NInf _ = True"

fun float_ge :: "pyfloat \<Rightarrow> pyfloat \<Rightarrow> bool" where
  "float_ge NaN _ = False"
| "float_ge _ NaN = False"
| "float_ge x y = (\<not> float_less x y)"

text \<open>
  \<open>round(x, 2)\<close>: infinities and NaN round to themselves; a finite \<open>x\<close> is rounded to
  two decimals, ties to even, on its exact value, and the decimal is converted back
  to the nearest double.
\<close>

fun round2 :: "pyfloat \<Rightarrow> pyfloat" where
  "round2 (Finite a) = to_double (of_int (round_half_even (a * 100)) / 100)"
| "round2 x = x"

text \<open>
  The built-in \<open>round\<close> raises \<open>OverflowError\<close> when the rounded value is too large
  for a double.
\<close>

fun py_round2 :: "pyfloat \<Rightarrow> exn + pyfloat" where
  "py_round2 (Finite a) =
     (case round2 (Finite a) of
        Finite b \<Rightarrow> Inr (Finite b)
      | _ \<Rightarrow> Inl OverflowError)"
| "py_round2 x = Inr x"

text \<open>Converting an \<open>int\<close> to \<open>float\<close> raises \<open>OverflowError\<close> beyond the double range.\<close>

definition int_to_float :: "int \<Rightarrow> exn + pyfloat" where
  "int_to_float n =
     (case to_double (of_int n) of
        Finite a \<Rightarrow> Inr (Finite a)
      | _ \<Rightarrow> Inl OverflowError)"

subsection \<open>Strings: \<open>str.strip\<close> and \<open>float(str)\<close>\<close>

text \<open>The characters \<open>str.isspace\<close> accepts, among the code points below 256.\<close>

definition is_space :: "char \<Rightarrow> bool" where
  "is_space c =
     (let n = (of_char c :: nat)
      in (9 \<le> n \<and> n \<le> 13) \<or> (28 \<le> n \<and> n \<le> 32) \<or> n = 133 \<or> n = 160)"

definition strip :: "string \<Rightarrow> string" where
  "strip s = rev (dropWhile is_space (rev (dropWhile is_space s)))"

definition is_digit :: "char \<Rightarrow> bool" where
  "is_digit c = (let n = (of_char c :: nat) in 48 \<le> n \<and> n \<le> 57)"

definition lower :: "char \<Rightarrow> char" where
  "lower c =
     (let n = (of_char c :: nat)
      in if 65 \<le> n \<and> n \<le> 90 then char_of (n + 32) else c)"

text \<open>
  In a numeric literal, an underscore must stand between two digits; the
  underscores are then dropped. \<open>prev\<close> is the character just read.
\<close>

fun drop_underscores :: "char option \<Rightarrow> string \<Rightarrow> string option" where
  "drop_underscores prev [] =
     (if prev = Some CHR ''_'' then None else Some [])"
| "drop_underscores prev (c # cs) =
     (if c = CHR ''_''
      then (case prev of
              Some p \<Rightarrow> if is_digit p then drop_underscores (Some c) cs else None
            | None \<Rightarrow> None)
      else if prev = Some CHR ''_'' \<and> \<not> is_digit c then None
      else map_option ((#) c) (drop_underscores (Some c) cs))"

definition split_sign :: "string \<Rightarrow> bool \<times> string" where
  "split_sign s =
     (case s of
        c # cs \<Rightarrow>
          if c = CHR ''-'' then (True, cs)
          else if c = CHR ''+'' then (False, cs)
          else (False, s)
      | [] \<Rightarrow> (False, s))"

definition digits_value :: "string \<Rightarrow> nat" where
  "digits_value ds = foldl (\<lambda>v c. 10 * v + (of_char c - 48)) 0 ds"

definition pow10 :: "int \<Rightarrow> rat" where
  "pow10 k = (if 0 \<le> k then 10 ^ nat k else 1 / 10 ^ nat (- k))"

text \<open>
  The decimal literal \<open>digits [. digits] [(e|E) [sign] digits]\<close> with at least one
  digit before the exponent; its exact value, if the text is one. \<open>ip\<close> and \<open>fp\<close>
  are the digits before and after the point.
\<close>

definition decimal_value :: "string \<Rightarrow> string \<Rightarrow> int \<Rightarrow> rat" where
  "decimal_value ip fp e = of_nat (digits_value (ip @ fp)) * pow10 (e - int (length fp))"

definition exponent_part :: "string \<Rightarrow> int option" where
  "exponent_part s =
     (case split_sign s of
        (neg, ds) \<Rightarrow>
          if ds \<noteq> [] \<and> list_all is_digit ds
          then Some (if neg then - int (digits_value ds) else int (digits_value ds))
          else None)"

fun fraction_part :: "string \<Rightarrow> string \<times> string" where
  "fraction_part [] = ([], [])"
| "fraction_part (c # cs) =
     (if c = CHR ''.'' then (takeWhile is_digit cs, dropWhile is_digit cs)
      else ([], c # cs))"

fun decimal_tail :: "string \<Rightarrow> string \<Rightarrow> string \<Rightarrow> rat option" where
  "decimal_tail ip fp [] = Some (decimal_value ip fp 0)"
| "decimal_tail ip fp (c # cs) =
     (if c = CHR ''e'' \<or> c = CHR ''E''
      then map_option (decimal_value ip fp) (exponent_part cs)
      else None)"

definition parse_decimal :: "string \<Rightarrow> rat option" where
  "parse_decimal s =
     (case fraction_part (dropWhile is_digit s) of
        (fp, rest) \<Rightarrow>
          if takeWhile is_digit s = [] \<and> fp = [] then None
          else decimal_tail (takeWhile is_digit s) fp rest)"

text \<open>
  \<open>float(s)\<close> for a \<open>str\<close>: surrounding whitespace is ignored, then an optional sign
  and \<open>inf\<close>, \<open>infinity\<close> or \<open>nan\<close> in any case, or a decimal literal, rounded to the
  nearest double. \<open>None\<close> is the \<open>ValueError\<close> of unparsable text.
\<close>

definition special_or_decimal :: "bool \<Rightarrow> string \<Rightarrow> pyfloat option" where
  "special_or_decimal neg body =
     (if map lower body = ''inf'' \<or> map lower body = ''infinity''
      then Some (if neg then NInf else PInf)
      else if map lower body = ''nan'' then Some NaN
      else map_option (\<lambda>q. to_double (if neg then - q else q)) (parse_decimal body))"

definition float_of_str :: "string \<Rightarrow> pyfloat option" where
  "float_of_str s =
     (case drop_underscores None (strip s) of
        None \<Rightarrow> None
      | Some t \<Rightarrow> (case split_sign t of (neg, body) \<Rightarrow> special_or_decimal neg body))"

text \<open>The built-in \<open>float(x)\<close> on the values of the universe.\<close>

fun py_float :: "pyval \<Rightarrow> exn + pyfloat" where
  "py_float (PFloat f) = Inr f"
| "py_float (PBool b) = Inr (Finite (if b then 1 else 0))"
| "py_float (PInt n) = int_to_float n"
| "py_float (PStr s) = (case float_of_str s of Some f \<Rightarrow> Inr f | None \<Rightarrow> Inl ValueError)"
| "py_float PNone = Inl TypeError"
| "py_float (PTuple xs) = Inl TypeError"
| "py_float (PList xs) = Inl TypeError"

text \<open>
  \<open>isinstance(x, int)\<close>, with the integer the value compares as: \<open>bool\<close> is a subclass
  of \<open>int\<close>, \<open>True\<close> is 1 and \<open>False\<close> is 0.
\<close>

fun as_int :: "pyval \<Rightarrow> int option" where
  "as_int (PInt n) = Some n"
| "as_int (PBool b) = Some (if b then 1 else 0)"
| "as_int _ = None"

section \<open>The module \<open>stock_processor\<close>\<close>

text \<open>
  The calls to the logger are left out: they change neither the result nor the
  control flow (formatting a message is taken to succeed).
\<close>

record StockResult =
  total_value :: pyfloat
  out_of_stock_items :: "string list"
  low_stock_items :: "string list"
  negative_stock_items :: "string list"

text \<open>
  \<open>_convert_price_to_float\<close>: \<open>float(price)\<close>, with \<open>ValueError\<close> and \<open>TypeError\<close>
  turned into \<open>ValueError\<close>; any other exception passes through.
\<close>

definition convert_price_to_float :: "pyval \<Rightarrow> exn + pyfloat" where
  "convert_price_to_float price =
     (case py_float price of
        Inr f \<Rightarrow> Inr f
      | Inl ValueError \<Rightarrow> Inl ValueError
      | Inl TypeError \<Rightarrow> Inl ValueError
      | Inl e \<Rightarrow> Inl e)"

text \<open>
  The body of the \<open>try\<close> block for one product, on the four accumulators. It returns
  the accumulators as they are when the body is left, and the exception that left it,
  if one did (\<open>None\<close> for a \<open>continue\<close> or the normal end of the body).
\<close>

definition loop_body :: "StockResult \<Rightarrow> pyval \<Rightarrow> StockResult \<times> exn option" where
  "loop_body s product =
     (case product of
        PTuple [product_id, price, stock_quantity] \<Rightarrow>
          (case product_id of
             PStr pid \<Rightarrow>
               if strip pid = [] then (s, None)
               else
                 (case convert_price_to_float price of
                    Inl ValueError \<Rightarrow> (s, None)
                  | Inl e \<Rightarrow> (s, Some e)
                  | Inr converted \<Rightarrow>
                      (let price_float =
                             (if float_less converted (Finite 0) then Finite 0 else converted)
                       in case as_int stock_quantity of
                            None \<Rightarrow> (s, None)
                          | Some q \<Rightarrow>
                              (let s1 = (if q < 0
                                         then s\<lparr>negative_stock_items :=
                                                  negative_stock_items s @ [pid]\<rparr>
                                         else s);
                                   effective_stock = (if q < 0 then 0 else q)
                               in case int_to_float effective_stock of
                                    Inl e \<Rightarrow> (s1, Some e)
                                  | Inr stock_float \<Rightarrow>
                                      (let stock_value = float_mul price_float stock_float;
                                           s2 = s1\<lparr>total_value :=
                                                    float_add (total_value s1) stock_value\<rparr>
                                       in if q = 0
                                          then (s2\<lparr>out_of_stock_items :=
                                                    out_of_stock_items s2 @ [pid]\<rparr>, None)
                                          else if 0 < q \<and> q \<le> 5
                                          then (s2\<lparr>low_stock_items :=
                                                    low_stock_items s2 @ [pid]\<rparr>, None)
                                          else (s2, None)))))
           | _ \<Rightarrow> (s, None))
      | _ \<Rightarrow> (s, None))"

text \<open>
  One iteration of the \<open>for\<close> loop: \<open>except Exception\<close> around the body logs and
  continues, so the accumulators go on as the body left them.
\<close>

definition step :: "StockResult \<Rightarrow> pyval \<Rightarrow> StockResult" where
  "step s product = fst (loop_body s product)"

fun loop :: "StockResult \<Rightarrow> pyval list \<Rightarrow> StockResult" where
  "loop s [] = s"
| "loop s (product # rest) = loop (step s product) rest"

definition initial :: StockResult where
  "initial = \<lparr>total_value = Finite 0, out_of_stock_items = [],
              low_stock_items = [], negative_stock_items = []\<rparr>"

definition process_stock :: "pyval \<Rightarrow> exn + StockResult" where
  "process_stock product_list =
     (case product_list of
        PList products \<Rightarrow>
          (let s = loop initial products
           in case py_round2 (total_value s) of
                Inl e \<Rightarrow> Inl e
              | Inr rounded \<Rightarrow> Inr (s\<lparr>total_value := rounded\<rparr>))
      | _ \<Rightarrow> Inl TypeError)"

definition process_stock_legacy :: "pyval \<Rightarrow> exn + pyfloat \<times> string list" where
  "process_stock_legacy product_list =
     (case process_stock product_list of
        Inl e \<Rightarrow> Inl e
      | Inr result \<Rightarrow> Inr (total_value result, out_of_stock_items result))"

section \<open>Vocabulary of the specification\<close>

text \<open>
  A record is valid when it passes the four checks of the loop: it is a 3-tuple, its
  identifier is a string that is not blank, its price converts to a float and its
  quantity is an integer. \<open>validated\<close> gives the identifier as written, the converted
  price and the quantity of a valid record.
\<close>

definition validated :: "pyval \<Rightarrow> (string \<times> pyfloat \<times> int) option" where
  "validated product =
     (case product of
        PTuple [PStr pid, price, stock_quantity] \<Rightarrow>
          if strip pid = [] then None
          else (case convert_price_to_float price of
                  Inl e \<Rightarrow> None
                | Inr f \<Rightarrow>
                    (case as_int stock_quantity of
                       None \<Rightarrow> None
                     | Some q \<Rightarrow> Some (pid, f, q)))
      | _ \<Rightarrow> None)"


definition valid_records :: "pyval list \<Rightarrow> (string \<times> pyfloat \<times> int) list" where
  "valid_records ps = List.map_filter validated ps"

text \<open>
  The identifiers of the valid records whose quantity satisfies \<open>P\<close>, in the order of
  the batch.
\<close>

definition ids_where :: "(int \<Rightarrow> bool) \<Rightarrow> pyval list \<Rightarrow> string list" where
  "ids_where P ps = map fst (filter (\<lambda>(pid, f, q). P q) (valid_records ps))"



text \<open>The price used in the product: a negative one is replaced by \<open>0.0\<close>.\<close>

definition clamp_price :: "pyfloat \<Rightarrow> pyfloat" where
  "clamp_price f = (if float_less f (Finite 0) then Finite 0 else f)"

text \<open>
  A value of \<open>pyfloat\<close> is a float when it is infinite, NaN, or a rational that
  rounding to double leaves unchanged.
\<close>

fun is_float :: "pyfloat \<Rightarrow> bool" where
  "is_float (Finite a) = (to_double a = Finite a)"
| "is_float x = True"


text \<open>
  What a record adds to the running total: nothing when it is not valid or when its
  quantity is too large for a float (the \<open>OverflowError\<close> is caught and the record
  dropped), otherwise the clamped price times the effective stock.
\<close>

definition stock_value :: "pyval \<Rightarrow> pyfloat option" where
  "stock_value p =
     (case validated p of
        None \<Rightarrow> None
      | Some (pid, f, q) \<Rightarrow>
          (case int_to_float (if q < 0 then 0 else q) of
             Inl e \<Rightarrow> None
           | Inr x \<Rightarrow> Some (float_mul (clamp_price f) x)))"

fun add_values :: "pyfloat \<Rightarrow> pyval list \<Rightarrow> pyfloat" where
  "add_values t [] = t"
| "add_values t (p # ps) =
     add_values (case stock_value p of None \<Rightarrow> t | Some x \<Rightarrow> float_add t x) ps"

fun is_finite :: "pyfloat \<Rightarrow> bool" where
  "is_finite (Finite a) = True"
| "is_finite x = False"

definition prices_finite :: "pyval list \<Rightarrow> bool" where
  "prices_finite ps = list_all (\<lambda>(pid, f, q). is_finite f) (valid_records ps)"

text \<open>A float that is zero, positive or plus infinity.\<close>

fun nonneg :: "pyfloat \<Rightarrow> bool" where
  "nonneg (Finite a) = (0 \<le> a)"
| "nonneg PInf = True"
| "nonneg x = False"

section \<open>The loop body, record by record\<close>

lemma validated_SomeD:
  assumes "validated p = Some (pid, f, q)"
  obtains price qv where "p = PTuple [PStr pid, price, qv]" "strip pid \<noteq> []"
    "convert_price_to_float price = Inr f" "as_int qv = Some q"
  using assms unfolding validated_def
  by (auto split: pyval.splits list.splits sum.splits option.splits if_splits)

lemma validated_tuple:
  "validated (PTuple [PStr pid, price, qv]) =
     (if strip pid = [] then None
      else case convert_price_to_float price of
             Inl e \<Rightarrow> None
           | Inr f \<Rightarrow> (case as_int qv of None \<Rightarrow> None | Some q \<Rightarrow> Some (pid, f, q)))"
  by (simp add: validated_def)

lemma validated_NoneD:
  assumes "validated p = None"
  shows "(\<forall>a b c. p \<noteq> PTuple [a, b, c])
       \<or> (\<exists>a b c. p = PTuple [a, b, c] \<and> (\<forall>pid. a \<noteq> PStr pid))
       \<or> (\<exists>pid b c. p = PTuple [PStr pid, b, c] \<and>
            (strip pid = [] \<or> (\<exists>e. convert_price_to_float b = Inl e) \<or> as_int c = None))"
proof (cases "\<exists>a b c. p = PTuple [a, b, c]")
  case False
  then show ?thesis by blast
next
  case True
  then obtain a b c where p: "p = PTuple [a, b, c]" by blast
  show ?thesis
  proof (cases "\<exists>pid. a = PStr pid")
    case False
    with p show ?thesis by blast
  next
    case True
    then obtain pid where a: "a = PStr pid" by blast
    from assms have "strip pid = [] \<or> (\<exists>e. convert_price_to_float b = Inl e) \<or> as_int c = None"
      unfolding p a validated_tuple
      by (auto split: if_splits sum.splits option.splits)
    with p a show ?thesis by blast
  qed
qed

lemma loop_body_not_triple:
  "\<forall>a b c. p \<noteq> PTuple [a, b, c] \<Longrightarrow> loop_body s p = (s, None)"
  unfolding loop_body_def
  by (auto split: pyval.splits list.splits)

lemma loop_body_not_str:
  "\<forall>pid. a \<noteq> PStr pid \<Longrightarrow> loop_body s (PTuple [a, b, c]) = (s, None)"
  unfolding loop_body_def
  by (cases a) auto

lemma loop_body_record:
  "loop_body s (PTuple [PStr pid, price, qv]) =
     (if strip pid = [] then (s, None)
      else
        (case convert_price_to_float price of
           Inl ValueError \<Rightarrow> (s, None)
         | Inl e \<Rightarrow> (s, Some e)
         | Inr converted \<Rightarrow>
             (let price_float =
                    (if float_less converted (Finite 0) then Finite 0 else converted)
              in case as_int qv of
                   None \<Rightarrow> (s, None)
                 | Some q \<Rightarrow>
                     (let s1 = (if q < 0
                                then s\<lparr>negative_stock_items :=
                                         negative_stock_items s @ [pid]\<rparr>
                                else s);
                          effective_stock = (if q < 0 then 0 else q)
                      in case int_to_float effective_stock of
                           Inl e \<Rightarrow> (s1, Some e)
                         | Inr stock_float \<Rightarrow>
                             (let stock_value = float_mul price_float stock_float;
                                  s2 = s1\<lparr>total_value :=
                                           float_add (total_value s1) stock_value\<rparr>
                              in if q = 0
                                 then (s2\<lparr>out_of_stock_items :=
                                           out_of_stock_items s2 @ [pid]\<rparr>, None)
                                 else if 0 < q \<and> q \<le> 5
                                 then (s2\<lparr>low_stock_items :=
                                           low_stock_items s2 @ [pid]\<rparr>, None)
                                 else (s2, None))))))"
  by (simp add: loop_body_def)

lemma validated_None_step: "validated p = None \<Longrightarrow> step s p = s"
  using validated_NoneD[of p]
  by (auto simp: step_def loop_body_not_triple loop_body_not_str loop_body_record
      split: sum.splits exn.splits option.splits)

lemma to_double_0 [simp]: "to_double 0 = Finite 0"
  by (simp add: to_double_def)

lemma int_to_float_0 [simp]: "int_to_float 0 = Inr (Finite 0)"
  by (simp add: int_to_float_def)

lemma int_to_float_small:
  assumes "0 < q" "q \<le> 5"
  shows "int_to_float q = Inr (Finite (of_int q))"
proof -
  from assms have "q = 1 \<or> q = 2 \<or> q = 3 \<or> q = 4 \<or> q = 5" by arith
  moreover have "int_to_float 1 = Inr (Finite 1)" by code_simp
  moreover have "int_to_float 2 = Inr (Finite 2)" by code_simp
  moreover have "int_to_float 3 = Inr (Finite 3)" by code_simp
  moreover have "int_to_float 4 = Inr (Finite 4)" by code_simp
  moreover have "int_to_float 5 = Inr (Finite 5)" by code_simp
  ultimately show ?thesis by auto
qed





lemma valid_records_Cons:
  "valid_records (p # ps) =
     (case validated p of None \<Rightarrow> valid_records ps | Some r \<Rightarrow> r # valid_records ps)"
  by (simp add: valid_records_def split: option.splits)


lemma ids_where_Nil [simp]: "ids_where P [] = []"
  by (simp add: ids_where_def valid_records_def)












section \<open>Rounding to double\<close>

text \<open>
  \<open>ilog2\<close> is the binary exponent of a positive rational, and rounding twice is
  rounding once: every value that \<open>to_double\<close> returns is a float.
\<close>

lemma pow2_powi: "pow2 k = 2 powi k"
  by (simp add: pow2_def power_int_def power_one_over inverse_eq_divide)

lemma bit_length_bounds:
  "0 < n \<Longrightarrow> 1 \<le> bit_length n \<and> 2 ^ nat (bit_length n - 1) \<le> n \<and> n < 2 ^ nat (bit_length n)"
proof (induction n rule: bit_length.induct)
  case (1 n)
  show ?case
  proof (cases "n = 1")
    case True
    have "bit_length 1 = 1" by (simp add: bit_length.simps[of 1] bit_length.simps[of 0])
    with True show ?thesis by simp
  next
    case False
    with "1.prems" have h: "0 < n div 2" by simp
    with "1.IH" "1.prems" have ih: "1 \<le> bit_length (n div 2)"
      "2 ^ nat (bit_length (n div 2) - 1) \<le> n div 2"
      "n div 2 < 2 ^ nat (bit_length (n div 2))" by simp_all
    have bl: "bit_length n = 1 + bit_length (n div 2)"
      using "1.prems" by (simp add: bit_length.simps[of n])
    have e1: "nat (bit_length n - 1) = Suc (nat (bit_length (n div 2) - 1))"
      using ih(1) bl by simp
    have e2: "nat (bit_length n) = Suc (nat (bit_length (n div 2)))"
      using ih(1) bl by simp
    have "2 * 2 ^ nat (bit_length (n div 2) - 1) \<le> 2 * (n div 2)" using ih(2) by simp
    also have "\<dots> \<le> n" by simp
    finally have a: "2 ^ nat (bit_length n - 1) \<le> n" by (simp add: e1)
    have "n div 2 + 1 \<le> 2 ^ nat (bit_length (n div 2))" using ih(3) by simp
    then have "2 * (n div 2) + 2 \<le> 2 * 2 ^ nat (bit_length (n div 2))" by simp
    moreover have "n < 2 * (n div 2) + 2" by simp
    ultimately have b: "n < 2 ^ nat (bit_length n)" by (simp add: e2)
    from a b bl ih(1) show ?thesis by simp
  qed
qed

lemma bit_length_nonpos: "n \<le> 0 \<Longrightarrow> bit_length n = 0"
  by (simp add: bit_length.simps[of n])

lemma bit_length_unique:
  assumes "2 ^ k \<le> n" "n < 2 ^ Suc k"
  shows "bit_length n = int k + 1"
proof -
  have pos: "0 < n" using assms(1) by (smt (verit) zero_less_power)
  note b = bit_length_bounds[OF pos]
  let ?j = "nat (bit_length n - 1)"
  have j: "bit_length n = int ?j + 1" using b by simp
  have "(2::int) ^ ?j < 2 ^ Suc k" using b assms(2) by linarith
  from power_less_imp_less_exp[OF _ this] have "?j < Suc k" by simp
  moreover have "(2::int) ^ k < 2 ^ nat (bit_length n)" using b assms(1) by linarith
  from power_less_imp_less_exp[OF _ this] have "k < nat (bit_length n)" by simp
  ultimately have "?j = k" using j by linarith
  with j show ?thesis by simp
qed

lemma pow2_pos [simp]: "0 < pow2 k"
  by (simp add: pow2_powi)

lemma pow2_add: "pow2 (a + b) = pow2 a * pow2 b"
  by (simp add: pow2_powi power_int_add)

lemma pow2_nat: "pow2 (int k) = 2 ^ k"
  by (simp add: pow2_def)

lemma pow2_neg: "pow2 (- k) = 1 / pow2 k"
  by (simp add: pow2_powi power_int_minus_divide)

lemma pow2_less_iff: "pow2 a < pow2 b \<longleftrightarrow> a < b"
proof
  assume l: "pow2 a < pow2 b"
  show "a < b"
  proof (rule ccontr)
    assume "\<not> a < b"
    then have "b \<le> a" by simp
    then have "pow2 b \<le> pow2 a"
      unfolding pow2_powi by (rule power_int_increasing) simp
    with l show False by simp
  qed
next
  assume "a < b"
  then show "pow2 a < pow2 b"
    unfolding pow2_powi by (rule power_int_strict_increasing) simp
qed

lemma pow2_le_iff: "pow2 a \<le> pow2 b \<longleftrightarrow> a \<le> b"
  using pow2_less_iff[of b a] by (auto simp: not_less[symmetric])

lemma recip_le: "0 < (P::rat) \<Longrightarrow> 1 \<le> P * a \<Longrightarrow> 1 / P \<le> a"
  by (simp add: field_simps)

lemma recip_gt: "0 < (P::rat) \<Longrightarrow> P * a < 1 \<Longrightarrow> a < 1 / P"
  by (simp add: field_simps)

lemma ilog2_bounds:
  assumes "0 < a"
  shows "pow2 (ilog2 a) \<le> a \<and> a < pow2 (ilog2 a + 1)"
proof (cases "1 \<le> a")
  case True
  let ?n = "\<lfloor>a\<rfloor>"
  have n: "0 < ?n" using True by simp
  note b = bit_length_bounds[OF n]
  have e: "ilog2 a = int (nat (bit_length ?n - 1))"
    using True b by (simp add: ilog2_def)
  have e1: "ilog2 a + 1 = int (nat (bit_length ?n))"
    using True b by (simp add: ilog2_def)
  have "(2::rat) ^ nat (bit_length ?n - 1) = of_int (2 ^ nat (bit_length ?n - 1))" by simp
  also have "\<dots> \<le> of_int ?n" using b by (simp only: of_int_le_iff)
  also have "\<dots> \<le> a" by simp
  finally have lo: "pow2 (ilog2 a) \<le> a" by (simp only: e pow2_nat)
  have "?n + 1 \<le> 2 ^ nat (bit_length ?n)" using b by simp
  then have "(of_int (?n + 1) :: rat) \<le> of_int (2 ^ nat (bit_length ?n))"
    by (simp only: of_int_le_iff)
  moreover have "a < of_int (?n + 1)" by linarith
  ultimately have "a < 2 ^ nat (bit_length ?n)" by simp
  then have hi: "a < pow2 (ilog2 a + 1)" by (simp only: e1 pow2_nat)
  from lo hi show ?thesis by simp
next
  case False
  let ?c = "\<lceil>1 / a\<rceil>"
  from False assms have "1 < 1 / a" by simp
  then have c: "0 < ?c - 1" by (smt (verit) ceiling_less_cancel ceiling_one less_ceiling_iff of_int_1)
  note b = bit_length_bounds[OF c]
  let ?j = "nat (bit_length (?c - 1))"
  have e: "ilog2 a = - int ?j" using False b by (simp add: ilog2_def)
  have "Suc 0 \<le> ?j" using b by linarith
  then have "int (?j - 1) = int ?j - 1" by simp
  also have "int ?j = bit_length (?c - 1)" using b by simp
  finally have j1: "int (?j - 1) = bit_length (?c - 1) - 1" .
  have e1: "ilog2 a + 1 = - int (?j - 1)" using False j1 by (simp add: ilog2_def)
  have "?c \<le> 2 ^ ?j" using b by simp
  then have "(of_int ?c :: rat) \<le> of_int (2 ^ ?j)" by (simp only: of_int_le_iff)
  then have c2: "(of_int ?c :: rat) \<le> 2 ^ ?j" by simp
  have c1: "1 / a \<le> of_int ?c" by (rule le_of_int_ceiling)
  from c1 c2 have "1 / a \<le> 2 ^ ?j" by (rule order_trans)
  then have "1 \<le> 2 ^ ?j * a" using assms by (simp add: field_simps)
  then have "1 / 2 ^ ?j \<le> a" by (rule recip_le[rotated]) simp
  moreover have "pow2 (ilog2 a) = 1 / 2 ^ ?j" by (simp only: e pow2_neg pow2_nat)
  ultimately have lo: "pow2 (ilog2 a) \<le> a" by (simp only:)
  have "nat (bit_length (?c - 1) - 1) = ?j - 1" using b by simp
  then have "2 ^ (?j - 1) \<le> ?c - 1" using b by simp
  then have "(of_int (2 ^ (?j - 1)) :: rat) \<le> of_int (?c - 1)" by (simp only: of_int_le_iff)
  then have c3: "(2 ^ (?j - 1) :: rat) \<le> of_int (?c - 1)" by simp
  have c4: "of_int (?c - 1) < 1 / a" by linarith
  from c3 c4 have "2 ^ (?j - 1) < 1 / a" by (rule le_less_trans)
  then have "2 ^ (?j - 1) * a < 1" using assms by (simp add: field_simps)
  then have "a < 1 / 2 ^ (?j - 1)" by (rule recip_gt[rotated]) simp
  moreover have "pow2 (ilog2 a + 1) = 1 / 2 ^ (?j - 1)" by (simp only: e1 pow2_neg pow2_nat)
  ultimately have hi: "a < pow2 (ilog2 a + 1)" by (simp only:)
  from lo hi show ?thesis by simp
qed

lemma ilog2_unique:
  assumes "pow2 e \<le> a" "a < pow2 (e + 1)"
  shows "ilog2 a = e"
proof -
  have pos: "0 < a" using assms(1) pow2_pos[of e] by linarith
  note b = ilog2_bounds[OF pos]
  have "pow2 e < pow2 (ilog2 a + 1)" using assms(1) b by linarith
  then have "e < ilog2 a + 1" by (simp only: pow2_less_iff)
  moreover have "pow2 (ilog2 a) < pow2 (e + 1)" using assms(2) b by linarith
  then have "ilog2 a < e + 1" by (simp only: pow2_less_iff)
  ultimately show ?thesis by simp
qed

lemma round_half_even_of_int [simp]: "round_half_even (of_int m) = m"
  by (simp add: round_half_even_def)

lemma round_half_even_ge: "of_int n \<le> x \<Longrightarrow> n \<le> round_half_even x"
proof -
  assume "of_int n \<le> x"
  then have "n \<le> \<lfloor>x\<rfloor>" by (simp add: le_floor_iff)
  then show ?thesis by (simp add: round_half_even_def Let_def)
qed

lemma round_half_even_le: "x \<le> of_int n \<Longrightarrow> round_half_even x \<le> n"
proof -
  assume h: "x \<le> of_int n"
  have f: "\<lfloor>x\<rfloor> \<le> n" using h by (simp add: floor_le_iff)
  have "\<lfloor>x\<rfloor> + 1 \<le> n" if "of_int \<lfloor>x\<rfloor> < x"
  proof -
    from that h have "(of_int \<lfloor>x\<rfloor> :: rat) < of_int n" by linarith
    then have "\<lfloor>x\<rfloor> < n" by (simp only: of_int_less_iff)
    then show ?thesis by simp
  qed
  with f show ?thesis
    by (auto simp: round_half_even_def Let_def)
qed

lemma bit_length_SucE:
  assumes "0 < m"
  obtains k where "bit_length m = int (Suc k)" "2 ^ k \<le> m" "m < 2 ^ Suc k"
proof -
  note b = bit_length_bounds[OF assms]
  let ?k = "nat (bit_length m - 1)"
  have 1: "bit_length m = int (Suc ?k)" using b by simp
  then have 2: "nat (bit_length m) = Suc ?k" by (metis nat_int)
  from b have "2 ^ ?k \<le> m" by simp
  moreover from b 2 have "m < 2 ^ Suc ?k" by (simp only:)
  ultimately show ?thesis using 1 that by blast
qed

lemma ilog2_scaled:
  assumes "0 < m"
  shows "ilog2 (of_int m * pow2 u) = bit_length m - 1 + u"
proof (rule ilog2_unique)
  from assms obtain k where k: "bit_length m = int (Suc k)" "2 ^ k \<le> m" "m < 2 ^ Suc k"
    by (rule bit_length_SucE)
  have "(of_int (2 ^ k) :: rat) \<le> of_int m" using k(2) by (simp only: of_int_le_iff)
  then have lo: "pow2 (int k) \<le> of_int m" by (simp add: pow2_nat)
  have "(of_int m :: rat) < of_int (2 ^ Suc k)" using k(3) by (simp only: of_int_less_iff)
  then have hi: "of_int m < pow2 (int (Suc k))" by (simp only: pow2_nat) simp
  have "bit_length m - 1 + u = int k + u" using k(1) by simp
  then have "pow2 (bit_length m - 1 + u) = pow2 (int k) * pow2 u"
    by (simp only: pow2_add)
  also have "\<dots> \<le> of_int m * pow2 u" using lo by simp
  finally show "pow2 (bit_length m - 1 + u) \<le> of_int m * pow2 u" .
  have "of_int m * pow2 u < pow2 (int (Suc k)) * pow2 u" using hi by simp
  also have "\<dots> = pow2 (int (Suc k) + u)" by (simp only: pow2_add)
  also have "int (Suc k) + u = bit_length m - 1 + u + 1" using k(1) by simp
  finally show "of_int m * pow2 u < pow2 (bit_length m - 1 + u + 1)" .
qed

lemma pow2_nonzero [simp]: "pow2 k \<noteq> 0"
  by (metis pow2_pos less_irrefl)

lemma pow2_div: "pow2 a / pow2 b = pow2 (a - b)"
  using pow2_add[of "a - b" b] by simp

lemma pow2_numeral_53: "pow2 53 = 2 ^ 53" "pow2 52 = 2 ^ 52"
  by (simp_all add: pow2_def)

lemma round_pos_fixed:
  fixes a :: rat
  assumes a: "0 < a"
    and u: "u = max (ilog2 a - 52) (- 1074)"
    and m: "m = round_half_even (a / pow2 u)"
    and no: "\<not> 1024 < u + bit_length m"
    and mpos: "0 < m"
    and v: "v = of_int m * pow2 u"
    and u': "u' = max (ilog2 v - 52) (- 1074)"
    and m': "m' = round_half_even (v / pow2 u')"
  shows "\<not> 1024 < u' + bit_length m' \<and> of_int m' * pow2 u' = v"
proof -
  note b = ilog2_bounds[OF a]
  have u_ge: "ilog2 a - 52 \<le> u" "- 1074 \<le> u" using u by simp_all
  \<comment> \<open>the scaled magnitude is below \<open>2^53\<close>\<close>
  have "a / pow2 u < pow2 (ilog2 a + 1) / pow2 u"
    using b by (simp add: divide_strict_right_mono)
  also have "\<dots> = pow2 (ilog2 a + 1 - u)" by (rule pow2_div)
  also have "\<dots> \<le> pow2 53" using u_ge by (simp only: pow2_le_iff)
  finally have "a / pow2 u \<le> of_int (2 ^ 53)" by (simp add: pow2_numeral_53)
  then have m_le: "m \<le> 2 ^ 53" unfolding m by (rule round_half_even_le)
  from mpos obtain k where k: "bit_length m = int (Suc k)" "2 ^ k \<le> m" "m < 2 ^ Suc k"
    by (rule bit_length_SucE)
  have "(2::int) ^ k < 2 ^ 54" using k(2) m_le by simp
  from power_less_imp_less_exp[OF _ this] have k_le: "k \<le> 53" by simp
  have lv: "ilog2 v = int k + u" unfolding v using ilog2_scaled[OF mpos, of u] k(1) by simp
  show ?thesis
  proof (cases "k = 53")
    case False
    with k_le have k52: "k \<le> 52" by simp
    have "u' = u"
    proof (cases "u = - 1074")
      case True
      with k52 show ?thesis unfolding u' lv by simp
    next
      case False
      with u have ue: "u = ilog2 a - 52" by (simp add: max_def split: if_splits)
      have "pow2 52 = pow2 (ilog2 a) / pow2 u"
        unfolding pow2_div ue by simp
      also have "\<dots> \<le> a / pow2 u"
      proof (rule divide_right_mono)
        show "pow2 (ilog2 a) \<le> a" using b by simp
        show "0 \<le> pow2 u" by (rule less_imp_le) (rule pow2_pos)
      qed
      finally have "of_int (2 ^ 52) \<le> a / pow2 u" by (simp add: pow2_numeral_53)
      then have "2 ^ 52 \<le> m" unfolding m by (rule round_half_even_ge)
      with k(3) have "(2::int) ^ 52 < 2 ^ Suc k" by simp
      from power_less_imp_less_exp[OF _ this] have "52 \<le> k" by simp
      with k52 have "k = 52" by simp
      then show ?thesis unfolding u' lv using u_ge by simp
    qed
    then have "m' = m" unfolding m' v by simp
    with \<open>u' = u\<close> no v show ?thesis by simp
  next
    case True
    with k(2) m_le have m53: "m = 2 ^ 53" by simp
    have u'1: "u' = u + 1" unfolding u' lv True using u_ge by simp
    have "pow2 (u + 1) = pow2 u * 2" using pow2_add[of u 1] by (simp add: pow2_def)
    then have sc: "v / pow2 u' = of_int (2 ^ 52)" "of_int (2 ^ 52) * pow2 u' = v"
      unfolding v u'1 m53 by simp_all
    have m'52: "m' = 2 ^ 52" unfolding m' sc(1) by (rule round_half_even_of_int)
    have "bit_length (2 ^ 52) = int 52 + 1" by (rule bit_length_unique) simp_all
    then have bl': "bit_length m' = 53" unfolding m'52 by simp
    have bl: "bit_length m = 54" using k(1) True by simp
    from no bl bl' u'1 sc(2) m'52 show ?thesis by simp
  qed
qed

lemma to_double_idem:
  assumes "to_double q = Finite x"
  shows "to_double x = Finite x"
proof (cases "q = 0")
  case True
  with assms show ?thesis by simp
next
  case False
  define a where "a = \<bar>q\<bar>"
  define u where "u = max (ilog2 a - 52) (- 1074)"
  define m where "m = round_half_even (a / pow2 u)"
  define sg :: rat where "sg = (if 0 < q then 1 else - 1)"
  have a: "0 < a" using False by (simp add: a_def)
  have unf: "to_double q =
      (if 1024 < u + bit_length m then (if 0 < q then PInf else NInf)
       else Finite (sg * of_int m * pow2 u))"
    using False by (simp add: to_double_def Let_def a_def u_def m_def sg_def)
  from assms unf have no: "\<not> 1024 < u + bit_length m"
    by (auto split: if_splits)
  with assms unf have x: "x = sg * of_int m * pow2 u" by simp
  have "of_int 0 \<le> a / pow2 u" using a by (simp add: less_imp_le)
  then have m0: "0 \<le> m" unfolding m_def by (rule round_half_even_ge)
  show ?thesis
  proof (cases "m = 0")
    case True
    with x show ?thesis by simp
  next
    case False
    with m0 have mpos: "0 < m" by simp
    define v where "v = of_int m * pow2 u"
    define u' where "u' = max (ilog2 v - 52) (- 1074)"
    define m' where "m' = round_half_even (v / pow2 u')"
    have fx: "\<not> 1024 < u' + bit_length m'" "of_int m' * pow2 u' = v"
      using round_pos_fixed[OF a u_def m_def no mpos v_def u'_def m'_def] by simp_all
    have vpos: "0 < v" using mpos by (simp add: v_def)
    have xv: "x = sg * v" by (simp add: x v_def)
    have sg: "sg = 1 \<or> sg = - 1" by (simp add: sg_def)
    have ax: "\<bar>x\<bar> = v" using vpos sg by (auto simp: xv)
    have x0: "x \<noteq> 0" using vpos sg by (auto simp: xv)
    have sx: "(if 0 < x then 1 else - 1) = sg" using vpos sg by (auto simp: xv)
    have "to_double x = Finite ((if 0 < x then 1 else - 1) * of_int m' * pow2 u')"
      using x0 fx(1) by (simp add: to_double_def Let_def ax u'_def[symmetric] m'_def[symmetric])
    also have "\<dots> = Finite (sg * (of_int m' * pow2 u'))" by (simp only: sx mult.assoc)
    also have "\<dots> = Finite x" by (simp only: fx(2) xv)
    finally show ?thesis .
  qed
qed

lemma is_float_to_double [simp]: "is_float (to_double q)"
  by (cases "to_double q") (simp_all add: to_double_idem)

lemma is_float_float_add [simp]: "is_float (float_add x y)"
  by (cases x; cases y) simp_all

lemma is_float_round2: "is_float (round2 x)"
  by (cases x) simp_all

text \<open>
  \<open>round(x, 2)\<close> never overflows on a float: a double of magnitude \<open>2^52\<close> or more is
  an integer and rounds to itself, and a smaller one stays far inside the range.
\<close>

lemma mantissa_le:
  assumes "0 < a"
  shows "round_half_even (a / pow2 (max (ilog2 a - 52) (- 1074))) \<le> 2 ^ 53"
proof -
  define u where "u = max (ilog2 a - 52) (- 1074)"
  note b = ilog2_bounds[OF assms]
  have u_ge: "ilog2 a - 52 \<le> u" using u_def by simp
  have "a / pow2 u < pow2 (ilog2 a + 1) / pow2 u"
    using b by (simp add: divide_strict_right_mono)
  also have "\<dots> = pow2 (ilog2 a + 1 - u)" by (rule pow2_div)
  also have "\<dots> \<le> pow2 53" using u_ge by (simp only: pow2_le_iff)
  finally have "a / pow2 u \<le> of_int (2 ^ 53)" by (simp add: pow2_numeral_53)
  then show ?thesis unfolding u_def by (rule round_half_even_le)
qed

lemma bit_length_le_54:
  assumes "m \<le> 2 ^ 53"
  shows "bit_length m \<le> 54"
proof (cases "0 < m")
  case False
  then show ?thesis by (simp add: bit_length_nonpos)
next
  case True
  then obtain k where k: "bit_length m = int (Suc k)" "2 ^ k \<le> m" "m < 2 ^ Suc k"
    by (rule bit_length_SucE)
  have "(2::int) ^ k < 2 ^ 54" using k(2) assms by simp
  from power_less_imp_less_exp[OF _ this] have "k \<le> 53" by simp
  with k(1) show ?thesis by simp
qed

lemma to_double_in_range:
  assumes "\<bar>x\<bar> < 2 ^ 1023"
  shows "\<exists>b. to_double x = Finite b"
proof (cases "x = 0")
  case True
  then show ?thesis by simp
next
  case False
  define a where "a = \<bar>x\<bar>"
  define u where "u = max (ilog2 a - 52) (- 1074)"
  define m where "m = round_half_even (a / pow2 u)"
  have a: "0 < a" using False by (simp add: a_def)
  note b = ilog2_bounds[OF a]
  have "pow2 (ilog2 a) < pow2 1023" using b assms by (simp add: a_def pow2_def)
  then have "ilog2 a < 1023" by (simp only: pow2_less_iff)
  then have "u \<le> 970" by (simp add: u_def)
  moreover have "bit_length m \<le> 54"
    unfolding m_def u_def by (rule bit_length_le_54) (rule mantissa_le[OF a])
  ultimately have "\<not> 1024 < u + bit_length m" by simp
  then show ?thesis
    using False by (simp add: to_double_def Let_def a_def[symmetric] u_def[symmetric] m_def[symmetric])
qed


lemma large_float_is_integer:
  assumes "to_double a = Finite a" "2 ^ 52 \<le> \<bar>a\<bar>"
  shows "\<exists>n. a = of_int n"
proof -
  define u where "u = max (ilog2 \<bar>a\<bar> - 52) (- 1074)"
  define m where "m = round_half_even (\<bar>a\<bar> / pow2 u)"
  define sg :: int where "sg = (if 0 < a then 1 else - 1)"
  have a0: "a \<noteq> 0" using assms(2) by auto
  then have pos: "0 < \<bar>a\<bar>" by simp
  have unf: "to_double a =
      (if 1024 < u + bit_length m then (if 0 < a then PInf else NInf)
       else Finite (of_int sg * of_int m * pow2 u))"
    using a0 by (simp add: to_double_def Let_def u_def m_def sg_def)
  with assms(1) have a: "a = of_int sg * of_int m * pow2 u"
    by (auto split: if_splits)
  note b = ilog2_bounds[OF pos]
  have "pow2 52 < pow2 (ilog2 \<bar>a\<bar> + 1)" using b assms(2) by (simp add: pow2_numeral_53)
  then have "52 < ilog2 \<bar>a\<bar> + 1" by (simp only: pow2_less_iff)
  then have "0 \<le> u" by (simp add: u_def)
  then have "pow2 u = of_int (2 ^ nat u)" by (simp add: pow2_def)
  with a have "a = of_int (sg * m * 2 ^ nat u)" by simp
  then show ?thesis ..
qed

lemma round_half_even_abs: "\<bar>of_int (round_half_even x)\<bar> \<le> \<bar>x\<bar> + (1::rat)"
proof -
  have "x \<le> of_int \<lceil>x\<rceil>" by (rule le_of_int_ceiling)
  then have "round_half_even x \<le> \<lceil>x\<rceil>" by (rule round_half_even_le)
  then have "(of_int (round_half_even x) :: rat) \<le> of_int \<lceil>x\<rceil>" by (simp only: of_int_le_iff)
  then have up: "(of_int (round_half_even x) :: rat) \<le> x + 1" by linarith
  have "of_int \<lfloor>x\<rfloor> \<le> x" by (rule of_int_floor_le)
  then have "\<lfloor>x\<rfloor> \<le> round_half_even x" by (rule round_half_even_ge)
  then have "(of_int \<lfloor>x\<rfloor> :: rat) \<le> of_int (round_half_even x)" by (simp only: of_int_le_iff)
  then have lo: "x - 1 \<le> (of_int (round_half_even x) :: rat)" by linarith
  from up lo show ?thesis by (simp add: abs_le_iff) linarith
qed

lemma round2_finite:
  assumes "to_double a = Finite a"
  shows "\<exists>b. round2 (Finite a) = Finite b"
proof (cases "2 ^ 52 \<le> \<bar>a\<bar>")
  case True
  from large_float_is_integer[OF assms True] obtain n where n: "a = of_int n" ..
  have "a * 100 = of_int (n * 100)" by (simp add: n)
  then have "round_half_even (a * 100) = n * 100" by (simp only: round_half_even_of_int)
  then have "round2 (Finite a) = to_double a" by (simp add: n)
  with assms show ?thesis by simp
next
  case False
  then have small: "\<bar>a\<bar> < 2 ^ 52" by simp
  let ?y = "of_int (round_half_even (a * 100)) / (100::rat)"
  have "\<bar>of_int (round_half_even (a * 100))\<bar> \<le> \<bar>a * 100\<bar> + (1::rat)"
    by (rule round_half_even_abs)
  then have "\<bar>?y\<bar> \<le> \<bar>a\<bar> + 1 / 100" by (simp add: abs_mult field_simps)
  also have "\<dots> < 2 ^ 52 + 1" using small by simp
  also have "\<dots> < (2::rat) ^ 1023" by simp
  finally have "\<bar>?y\<bar> < 2 ^ 1023" .
  from to_double_in_range[OF this] show ?thesis by simp
qed

lemma py_round2_float: "is_float x \<Longrightarrow> py_round2 x = Inr (round2 x)"
proof (cases x)
  case (Finite a)
  assume "is_float x"
  with Finite have "to_double a = Finite a" by simp
  from round2_finite[OF this] obtain b where "round2 (Finite a) = Finite b" ..
  with Finite show ?thesis by simp
qed simp_all

section \<open>The running total\<close>

lemma to_double_nonneg: "0 \<le> q \<Longrightarrow> nonneg (to_double q)"
proof (cases "q = 0")
  case True
  then show ?thesis by simp
next
  case False
  assume "0 \<le> q"
  with False have q: "0 < q" by simp
  have "of_int 0 \<le> \<bar>q\<bar> / pow2 u" for u
    using q by (simp add: less_imp_le)
  then have "0 \<le> round_half_even (\<bar>q\<bar> / pow2 u)" for u
    by (rule round_half_even_ge)
  then show ?thesis
    using q by (simp add: to_double_def Let_def less_imp_le)
qed

lemma nonneg_float_add: "nonneg x \<Longrightarrow> nonneg y \<Longrightarrow> nonneg (float_add x y)"
  by (cases x; cases y) (simp_all add: to_double_nonneg)

lemma nonneg_round2: "nonneg x \<Longrightarrow> nonneg (round2 x)"
proof (cases x)
  case (Finite a)
  assume "nonneg x"
  with Finite have "0 \<le> a" by simp
  then have "of_int 0 \<le> a * 100" by simp
  then have "0 \<le> round_half_even (a * 100)" by (rule round_half_even_ge)
  then show ?thesis using Finite by (simp add: to_double_nonneg)
qed simp_all

lemma nonneg_float_ge: "nonneg x \<Longrightarrow> float_ge x (Finite 0)"
  by (cases x) simp_all

lemma int_to_float_nonneg:
  assumes "0 \<le> n" "int_to_float n = Inr x"
  shows "\<exists>b. x = Finite b \<and> 0 \<le> b"
proof -
  have "nonneg (to_double (of_int n))" using assms(1) by (simp add: to_double_nonneg)
  with assms(2) show ?thesis
    unfolding int_to_float_def by (cases "to_double (of_int n)") auto
qed

lemma stock_value_nonneg:
  assumes "validated p = Some (pid, f, q)" "is_finite f" "stock_value p = Some x"
  shows "nonneg x"
proof -
  from assms(2) obtain a where f: "f = Finite a" by (cases f) simp_all
  have c: "clamp_price f = Finite (if a < 0 then 0 else a)"
    by (simp add: clamp_price_def f)
  from assms(1,3) obtain y where y: "int_to_float (if q < 0 then 0 else q) = Inr y"
    "x = float_mul (clamp_price f) y"
    by (auto simp: stock_value_def split: sum.splits)
  have "0 \<le> (if q < 0 then 0 else q)" by simp
  from int_to_float_nonneg[OF this y(1)] obtain b where b: "y = Finite b" "0 \<le> b" by auto
  show ?thesis unfolding y(2) c b(1)
    by (simp add: to_double_nonneg b(2))
qed

lemma step_total:
  "total_value (step s p) =
     (case stock_value p of None \<Rightarrow> total_value s | Some x \<Rightarrow> float_add (total_value s) x)"
proof (cases "validated p")
  case None
  then show ?thesis by (simp add: validated_None_step stock_value_def)
next
  case (Some r)
  obtain pid f q where r: "r = (pid, f, q)" by (cases r)
  note v = Some[unfolded r]
  from v obtain price qv where p: "p = PTuple [PStr pid, price, qv]" "strip pid \<noteq> []"
    "convert_price_to_float price = Inr f" "as_int qv = Some q"
    by (rule validated_SomeD)
  show ?thesis
    by (cases "int_to_float (if q < 0 then 0 else q)")
       (simp_all add: p step_def loop_body_record stock_value_def v[unfolded p(1)] clamp_price_def Let_def)
qed

lemma loop_total: "total_value (loop s ps) = add_values (total_value s) ps"
  by (induction ps arbitrary: s) (simp_all add: step_total)


lemma is_float_add_values: "is_float t \<Longrightarrow> is_float (add_values t ps)"
  by (induction ps arbitrary: t) (simp_all split: option.splits)

lemma prices_finite_Cons:
  "prices_finite (p # ps) =
     ((case validated p of None \<Rightarrow> True | Some (pid, f, q) \<Rightarrow> is_finite f) \<and> prices_finite ps)"
  by (simp add: prices_finite_def valid_records_Cons split: option.splits)

lemma nonneg_add_values:
  "nonneg t \<Longrightarrow> prices_finite ps \<Longrightarrow> nonneg (add_values t ps)"
proof (induction ps arbitrary: t)
  case Nil
  then show ?case by simp
next
  case (Cons p ps)
  from Cons.prems(2) have pf: "prices_finite ps"
    and fin: "\<And>pid f q. validated p = Some (pid, f, q) \<Longrightarrow> is_finite f"
    by (auto simp: prices_finite_Cons)
  show ?case
  proof (cases "stock_value p")
    case None
    then show ?thesis using Cons.IH[OF Cons.prems(1) pf] by simp
  next
    case (Some x)
    then obtain pid f q where v: "validated p = Some (pid, f, q)"
      by (auto simp: stock_value_def split: option.splits)
    have "nonneg x" using stock_value_nonneg[OF v fin[OF v] Some] .
    then have "nonneg (float_add t x)" using Cons.prems(1) by (simp add: nonneg_float_add)
    then show ?thesis using Cons.IH[OF _ pf] Some by simp
  qed
qed

lemma is_float_loop_total: "is_float (total_value (loop initial ps))"
  by (simp add: loop_total initial_def is_float_add_values)

lemma process_stock_list:
  "process_stock (PList ps) =
     Inr ((loop initial ps)\<lparr>total_value := round2 (total_value (loop initial ps))\<rparr>)"
  by (simp add: process_stock_def Let_def py_round2_float [OF is_float_loop_total])


lemma process_stock_total:
  "\<exists>r. process_stock (PList ps) = Inr r
       \<and> total_value r = round2 (add_values (Finite 0) ps)"
  by (simp add: process_stock_list loop_total initial_def)

lemma total_nonneg_when_prices_finite:
  assumes "prices_finite ps"
  shows "\<exists>r. process_stock (PList ps) = Inr r \<and> float_ge (total_value r) (Finite 0)"
proof -
  have "nonneg (add_values (Finite 0) ps)" using assms by (simp add: nonneg_add_values)
  then have "float_ge (round2 (add_values (Finite 0) ps)) (Finite 0)"
    by (simp add: nonneg_round2 nonneg_float_ge)
  with process_stock_total[of ps] show ?thesis by auto
qed

lemma float_add_zero: "is_float t \<Longrightarrow> float_add t (Finite 0) = t"
  by (cases t) simp_all

lemma float_mul_one: "is_float f \<Longrightarrow> float_mul f (Finite 1) = f"
  by (cases f) simp_all



lemma is_float_clamp_price: "is_float f \<Longrightarrow> is_float (clamp_price f)"
  by (simp add: clamp_price_def)

lemma bool_quantity_as_int:
  "step s (PTuple [a, b, PBool True]) = step s (PTuple [a, b, PInt 1])"
  "step s (PTuple [a, b, PBool False]) = step s (PTuple [a, b, PInt 0])"
proof -
  have "step s (PTuple [a, b, PBool True]) = step s (PTuple [a, b, PInt 1])
      \<and> step s (PTuple [a, b, PBool False]) = step s (PTuple [a, b, PInt 0])"
  proof (cases "\<exists>pid. a = PStr pid")
    case True
    then obtain pid where "a = PStr pid" by blast
    then show ?thesis
      by (simp add: step_def loop_body_record split: sum.splits exn.splits)
  next
    case False
    then show ?thesis by (simp add: step_def loop_body_not_str)
  qed
  then show "step s (PTuple [a, b, PBool True]) = step s (PTuple [a, b, PInt 1])"
    "step s (PTuple [a, b, PBool False]) = step s (PTuple [a, b, PInt 0])"
    by simp_all
qed

lemma bool_quantity_finite_price:
  assumes "strip pid \<noteq> []"
    and "convert_price_to_float price = Inr f"
    and "is_finite f" "is_float f"
  shows "step s (PTuple [PStr pid, price, PBool True])
           = s\<lparr>total_value := float_add (total_value s) (clamp_price f),
                low_stock_items := low_stock_items s @ [pid]\<rparr>"
    and "is_float (total_value s) \<Longrightarrow>
         step s (PTuple [PStr pid, price, PBool False])
           = s\<lparr>out_of_stock_items := out_of_stock_items s @ [pid]\<rparr>"
proof -
  have i: "int_to_float 1 = Inr (Finite 1)" using int_to_float_small[of 1] by simp
  have c: "is_float (clamp_price f)" using assms(4) by (rule is_float_clamp_price)
  show "step s (PTuple [PStr pid, price, PBool True])
           = s\<lparr>total_value := float_add (total_value s) (clamp_price f),
                low_stock_items := low_stock_items s @ [pid]\<rparr>"
    using assms(1,2) float_mul_one[OF c]
    by (simp add: step_def loop_body_record i clamp_price_def)
  from assms(3) obtain a where f: "f = Finite a" by (cases f) simp_all
  assume t: "is_float (total_value s)"
  have "float_mul (clamp_price f) (Finite 0) = Finite 0"
    by (simp add: f clamp_price_def)
  then show "step s (PTuple [PStr pid, price, PBool False])
           = s\<lparr>out_of_stock_items := out_of_stock_items s @ [pid]\<rparr>"
    using assms(1,2) float_add_zero[OF t]
    by (simp add: step_def loop_body_record clamp_price_def)
qed



section \<open>Two scenarios of the test suite\<close>

text \<open>
  \<open>test_negative_stock_handling\<close>, and the arithmetic of \<open>test_precision_and_rounding\<close>
  step by step: the literals \<open>33.333\<close> and \<open>66.666\<close>, the two products, their sum
  and \<open>round(233.331, 2)\<close>, which is the double of the literal \<open>233.33\<close>.
\<close>

lemma scenario_negative_stock:
  "process_stock
     (PList [PTuple [PStr ''p001'', PFloat (Finite 100), PInt (- 5)],
             PTuple [PStr ''p002'', PFloat (Finite 50), PInt 3],
             PTuple [PStr ''p003'', PFloat (Finite 200), PInt (- 2)]])
   = Inr \<lparr>total_value = Finite 150, out_of_stock_items = [],
          low_stock_items = [''p002''], negative_stock_items = [''p001'', ''p003'']\<rparr>"
  by code_simp

lemma scenario_rounding:
  "to_double (33333 / 1000) = Finite (1172800674837037 / 35184372088832)"
  "to_double (66666 / 1000) = Finite (1172800674837037 / 17592186044416)"
  "float_mul (Finite (1172800674837037 / 35184372088832)) (Finite 3)
     = Finite (3518402024511111 / 35184372088832)"
  "float_mul (Finite (1172800674837037 / 17592186044416)) (Finite 2)
     = Finite (1172800674837037 / 8796093022208)"
  "float_add (Finite (3518402024511111 / 35184372088832))
             (Finite (1172800674837037 / 8796093022208))
     = Finite (8209604723859259 / 35184372088832)"
  "round2 (Finite (8209604723859259 / 35184372088832))
     = Finite (8209569539487171 / 35184372088832)"
  "to_double (23333 / 100) = Finite (8209569539487171 / 35184372088832)"
  by code_simp+

section \<open>The legacy wrapper\<close>

text \<open>
  Claim C8. For every input, \<open>process_stock_legacy\<close> returns the pair of the
  \<open>total_value\<close> and the \<open>out_of_stock_items\<close> of the result that \<open>process_stock\<close>
  returns for the same input, and it raises exactly when \<open>process_stock\<close> raises, with
  the same exception.
\<close>

theorem legacy_is_projection_of_core:
  "process_stock_legacy x =
     (case process_stock x of
        Inl e \<Rightarrow> Inl e
      | Inr r \<Rightarrow> Inr (total_value r, out_of_stock_items r))
   \<and> isl (process_stock_legacy x) = isl (process_stock x)"
  by (simp add: process_stock_legacy_def split: sum.splits)

theorem legacy_is_projection_of_core_witness:
  "process_stock_legacy
     (PList [PTuple [PStr ''p001'', PFloat (Finite 100), PInt 5],
             PTuple [PStr ''p003'', PFloat (Finite 200), PInt 0]])
     = Inr (Finite 500, [''p003''])
   \<and> process_stock_legacy (PStr ''not a list'') = Inl TypeError"
proof -
  have a: "process_stock
     (PList [PTuple [PStr ''p001'', PFloat (Finite 100), PInt 5],
             PTuple [PStr ''p003'', PFloat (Finite 200), PInt 0]])
     = Inr \<lparr>total_value = Finite 500, out_of_stock_items = [''p003''],
            low_stock_items = [''p001''], negative_stock_items = []\<rparr>"
    by code_simp
  have b: "process_stock (PStr ''not a list'') = Inl TypeError"
    by code_simp
  show ?thesis
    using legacy_is_projection_of_core
             [of "PList [PTuple [PStr ''p001'', PFloat (Finite 100), PInt 5],
                         PTuple [PStr ''p003'', PFloat (Finite 200), PInt 0]]"]
          legacy_is_projection_of_core [of "PStr ''not a list''"]
    by (simp add: a b)
qed

section \<open>The top-level type check\<close>




section \<open>Malformed records\<close>





section \<open>The three category sequences\<close>








section \<open>Prices\<close>



text \<open>
  Claim C1 fails on the code. The price check only replaces a price below zero; NaN
  is not below zero, so the one-record batch \<open>[("p001", "nan", 1)]\<close> is accepted and
  its total is NaN, which is not \<open>>= 0\<close>. Lemma \<open>total_nonneg_when_prices_finite\<close>
  shows the total is \<open>>= 0\<close> whenever the price of every valid record is finite.
\<close>

theorem nan_price_gives_nan_total:
  "process_stock (PList [PTuple [PStr ''p001'', PStr ''nan'', PInt 1]])
     = Inr \<lparr>total_value = NaN, out_of_stock_items = [],
            low_stock_items = [''p001''], negative_stock_items = []\<rparr>
   \<and> \<not> float_ge NaN (Finite 0)"
proof -
  have "float_of_str ''nan'' = Some NaN" by code_simp
  then have c: "convert_price_to_float (PStr ''nan'') = Inr NaN"
    by (simp add: convert_price_to_float_def)
  have s: "strip ''p001'' = ''p001''" by code_simp
  have i: "int_to_float 1 = Inr (Finite 1)" using int_to_float_small[of 1] by simp
  have "step initial (PTuple [PStr ''p001'', PStr ''nan'', PInt 1])
          = \<lparr>total_value = NaN, out_of_stock_items = [],
             low_stock_items = [''p001''], negative_stock_items = []\<rparr>"
    by (simp add: step_def loop_body_record c s i initial_def)
  then show ?thesis by (simp add: process_stock_list)
qed

text \<open>
  Claim C9 fails on the code for a price that is infinite or NaN: with quantity
  \<open>False\<close> the record adds \<open>inf * 0 = nan\<close> to the total instead of 0. Lemmas
  \<open>bool_quantity_as_int\<close> and \<open>bool_quantity_finite_price\<close> show the rest of the claim:
  \<open>True\<close> and \<open>False\<close> are processed as the quantities 1 and 0, and for a finite price
  they add the price once, and nothing.
\<close>

theorem infinite_price_false_quantity:
  "process_stock (PList [PTuple [PStr ''p001'', PFloat PInf, PBool False]])
     = Inr \<lparr>total_value = NaN, out_of_stock_items = [''p001''],
            low_stock_items = [], negative_stock_items = []\<rparr>"
proof -
  have s: "strip ''p001'' = ''p001''" by code_simp
  have "step initial (PTuple [PStr ''p001'', PFloat PInf, PBool False])
          = \<lparr>total_value = NaN, out_of_stock_items = [''p001''],
             low_stock_items = [], negative_stock_items = []\<rparr>"
    by (simp add: step_def loop_body_record s initial_def convert_price_to_float_def)
  then show ?thesis by (simp add: process_stock_list)
qed

end
